theory Spec2Isabelle
  imports Main "HOL-Library.FSet" "HOL-Library.Sublist"
begin

section \<open>The Triarc backend (triarc/bot/backend.py)\<close>

text \<open>
  A shallow embedding of the \<^verbatim>\<open>Backend\<close> class: the listener registry and
  \<^verbatim>\<open>receive_message\<close>, the stop-scope bookkeeping of \<^verbatim>\<open>new_stop_scope\<close>, the
  construction of an instance and the registration hooks.

  Python objects that are compared by identity (handler callables, cancel scopes) are
  references, that is natural numbers. A Python \<^verbatim>\<open>set\<close> is a finite set; a \<^verbatim>\<open>dict\<close>
  is a map. A method that mutates \<^verbatim>\<open>self\<close> takes the backend and returns the new one,
  also when it raises: what a method has written before it raises stays written.
\<close>

subsection \<open>Data model\<close>

datatype error = TypeError | AttributeError | RuntimeError | NotImplementedError | UserError string

type_synonym href = nat

type_synonym scope = nat

text \<open>
  The attribute \<^verbatim>\<open>globallisteners\<close> is declared with \<^verbatim>\<open>attr.Factory(dict)\<close>, and the
  methods use it as a set (\<^verbatim>\<open>.add(func)\<close>, \<^verbatim>\<open>set | self.globallisteners\<close>). It holds a
  dict unless the caller has supplied a set.
\<close>

datatype glisteners = GDict "string \<rightharpoonup> href fset" | GSet "href fset"

text \<open>
  The nursery of \<^verbatim>\<open>_watch_stop_scopes\<close>, as far as \<^verbatim>\<open>new_stop_scope\<close> uses it: the
  tasks handed to \<^verbatim>\<open>start_soon\<close>, in order. A nursery object is truthy whatever it holds,
  and it is open, so that \<^verbatim>\<open>start_soon\<close> accepts the task, for as long as the backend runs.
\<close>

datatype task = WatchScope scope

type_synonym nursery = "task list"

record backend =
  "identifier" :: string
  mutators :: "string \<rightharpoonup> nat"
  listeners :: "string \<rightharpoonup> href fset"
  globallisteners :: glisteners
  stop_scopes :: "scope fset"
  stop_scope_watcher :: "nursery option"

text \<open>
  The objects made by \<^verbatim>\<open>trio.CancelScope()\<close>: the address of a scope is its index, the
  value stored there is its \<^verbatim>\<open>cancel_called\<close> flag.
\<close>

type_synonym heap = "bool list"

definition CancelScope :: "heap \<Rightarrow> scope \<times> heap" where
  "CancelScope h = (length h, h @ [False])"

definition start_soon :: "task \<Rightarrow> nursery \<Rightarrow> nursery" where
  "start_soon t n = n @ [t]"

subsection \<open>Construction\<close>

text \<open>
  \<^verbatim>\<open>identifier: str = attr.Factory(lambda identifier: identifier if identifier is not None
  else str(uuid.uuid4()))\<close>. The lambda is a callable of one positional parameter; applied
  to any other number of arguments it raises \<^verbatim>\<open>TypeError\<close>. \<open>uuid4\<close> stands for the
  string that \<^verbatim>\<open>str(uuid.uuid4())\<close> would return.
\<close>

definition identifier_factory :: "string \<Rightarrow> string option list \<Rightarrow> error + string" where
  "identifier_factory uuid4 args =
     (case args of
        [ident] \<Rightarrow> Inr (case ident of Some i \<Rightarrow> i | None \<Rightarrow> uuid4)
      | _ \<Rightarrow> Inl TypeError)"

text \<open>
  \<^verbatim>\<open>attr.Factory(f)\<close>, with \<^verbatim>\<open>takes_self\<close> left at its default, calls \<^verbatim>\<open>f()\<close> with no
  argument when the attribute is not supplied.
\<close>

definition attr_Factory :: "('a list \<Rightarrow> error + 'b) \<Rightarrow> error + 'b" where
  "attr_Factory f = f []"

text \<open>
  The generated \<^verbatim>\<open>__init__\<close>, for a call that supplies at most \<^verbatim>\<open>identifier\<close> and
  \<^verbatim>\<open>globallisteners\<close>: an attribute that is not supplied takes its default, which is
  \<^verbatim>\<open>attr.Factory(dict)\<close> for \<^verbatim>\<open>mutators\<close>, \<^verbatim>\<open>listeners\<close> and \<^verbatim>\<open>globallisteners\<close>,
  \<^verbatim>\<open>attr.Factory(set)\<close> for \<^verbatim>\<open>stop_scopes\<close> and \<^verbatim>\<open>None\<close> for
  \<^verbatim>\<open>stop_scope_watcher\<close>.
\<close>

definition Backend :: "string \<Rightarrow> string option \<Rightarrow> glisteners option \<Rightarrow> error + backend" where
  "Backend uuid4 identifier_arg globallisteners_arg =
     (case (case identifier_arg of
              Some i \<Rightarrow> Inr i
            | None \<Rightarrow> attr_Factory (identifier_factory uuid4)) of
        Inl e \<Rightarrow> Inl e
      | Inr i \<Rightarrow>
          Inr \<lparr>identifier = i, mutators = Map.empty, listeners = Map.empty,
               globallisteners =
                 (case globallisteners_arg of Some g \<Rightarrow> g | None \<Rightarrow> GDict Map.empty),
               stop_scopes = {||}, stop_scope_watcher = None\<rparr>)"

subsection \<open>The listener registry\<close>

text \<open>\<^verbatim>\<open>d.get(kind, set())\<close> on the listeners dict.\<close>

definition listeners_get :: "backend \<Rightarrow> string \<Rightarrow> href fset" where
  "listeners_get b kind = (case listeners b kind of None \<Rightarrow> {||} | Some s \<Rightarrow> s)"

text \<open>
  \<^verbatim>\<open>listen(name)(func)\<close>: \<^verbatim>\<open>self.listeners.setdefault(name, set()).add(func)\<close>, and the
  decorator returns \<^verbatim>\<open>func\<close>.
\<close>

definition listen :: "string \<Rightarrow> href \<Rightarrow> backend \<Rightarrow> href \<times> backend" where
  "listen name func b =
     (func, b\<lparr>listeners := (listeners b)(name \<mapsto> finsert func (listeners_get b name))\<rparr>)"

text \<open>
  \<^verbatim>\<open>listen_all()(func)\<close>: \<^verbatim>\<open>self.globallisteners.add(func)\<close>. A dict has no attribute
  \<^verbatim>\<open>add\<close>.
\<close>

definition listen_all :: "href \<Rightarrow> backend \<Rightarrow> (error + href) \<times> backend" where
  "listen_all func b =
     (case globallisteners b of
        GSet g \<Rightarrow> (Inr func, b\<lparr>globallisteners := GSet (finsert func g)\<rparr>)
      | GDict d \<Rightarrow> (Inl AttributeError, b))"

subsection \<open>Dispatch\<close>

text \<open>
  A handler is called with the kind and the data; it may change the backend, and it
  returns normally (\<open>None\<close>) or raises (\<open>Some e\<close>). \<open>hs h\<close> is the body of the callable
  at reference \<open>h\<close>.
\<close>

type_synonym 'd handlers = "href \<Rightarrow> string \<Rightarrow> 'd \<Rightarrow> backend \<Rightarrow> error option \<times> backend"

type_synonym 'd call = "href \<times> string \<times> 'd"

text \<open>
  \<^verbatim>\<open>for listener in lists: await listener(kind, data)\<close>, over the listeners in the order
  the loop visits them. The result is the calls made, in order, the exception that left
  the loop if there is one, and the backend.
\<close>

fun run_listeners ::
  "'d handlers \<Rightarrow> href list \<Rightarrow> string \<Rightarrow> 'd \<Rightarrow> backend \<Rightarrow> 'd call list \<times> error option \<times> backend" where
  "run_listeners hs [] kind data b = ([], None, b)"
| "run_listeners hs (l # ls) kind data b =
     (case hs l kind data b of
        (Some e, b') \<Rightarrow> ([(l, kind, data)], Some e, b')
      | (None, b') \<Rightarrow>
          (case run_listeners hs ls kind data b' of
             (cs, r, b'') \<Rightarrow> ((l, kind, data) # cs, r, b'')))"

text \<open>
  Python does not fix the order in which a set is iterated. \<open>it\<close> is the order the
  runtime takes for this call; \<open>iterates it\<close> says that it visits every element of the
  set once.
\<close>

definition iterates :: "(href fset \<Rightarrow> href list) \<Rightarrow> bool" where
  "iterates it = (\<forall>S. distinct (it S) \<and> fset_of_list (it S) = S)"

text \<open>
  \<^verbatim>\<open>receive_message(kind, data)\<close>:
  \<^verbatim>\<open>lists = self.listeners.get(kind, set()) | self.globallisteners\<close>, then the loop.
  \<^verbatim>\<open>set | dict\<close> raises \<^verbatim>\<open>TypeError\<close>. \<open>lists\<close> is a new set: what a handler does to the
  registry does not change the iteration.
\<close>

definition receive_message ::
  "'d handlers \<Rightarrow> (href fset \<Rightarrow> href list) \<Rightarrow> backend \<Rightarrow> string \<Rightarrow> 'd \<Rightarrow>
     'd call list \<times> error option \<times> backend" where
  "receive_message hs it b kind data =
     (case globallisteners b of
        GDict d \<Rightarrow> ([], Some TypeError, b)
      | GSet g \<Rightarrow> run_listeners hs (it (listeners_get b kind |\<union>| g)) kind data b)"

subsection \<open>Registration hooks\<close>

text \<open>\<^verbatim>\<open>pre_bot_register(self, bot)\<close>: \<^verbatim>\<open>return False\<close>.\<close>

definition pre_bot_register :: "backend \<Rightarrow> 'b \<Rightarrow> bool" where
  "pre_bot_register self bot_arg = False"

subsection \<open>Stop scopes\<close>

text \<open>
  \<^verbatim>\<open>new_stop_scope\<close>: the scope is made and added to \<^verbatim>\<open>stop_scopes\<close> first; then, if
  \<^verbatim>\<open>stop_scope_watcher\<close> is set, \<^verbatim>\<open>watch_scope\<close> is started in it and the scope is
  returned; otherwise \<^verbatim>\<open>RuntimeError\<close> is raised.
\<close>

definition new_stop_scope :: "backend \<Rightarrow> heap \<Rightarrow> (error + scope) \<times> backend \<times> heap" where
  "new_stop_scope b h =
     (case CancelScope h of
        (scope, h') \<Rightarrow>
          (let b' = b\<lparr>stop_scopes := finsert scope (stop_scopes b)\<rparr>
           in case stop_scope_watcher b' of
                Some n \<Rightarrow>
                  (Inr scope,
                   b'\<lparr>stop_scope_watcher := Some (start_soon (WatchScope scope) n)\<rparr>, h')
              | None \<Rightarrow> (Inl RuntimeError, b', h')))"

subsection \<open>Observing a dispatch\<close>

text \<open>The call \<^verbatim>\<open>listener(kind, data)\<close> as an entry of the list of calls.\<close>

definition call_of :: "string \<Rightarrow> 'd \<Rightarrow> href \<Rightarrow> 'd call" where
  "call_of kind data h = (h, kind, data)"

text \<open>How many times the handler \<open>h\<close> was called.\<close>

definition invoked :: "'d call list \<Rightarrow> href \<Rightarrow> nat" where
  "invoked cs h = count_list (map fst cs) h"

subsection \<open>Concrete backends and handlers\<close>

text \<open>\<^verbatim>\<open>Backend(identifier='b')\<close>: every other attribute at its default.\<close>

definition default_backend :: backend where
  "default_backend =
     \<lparr>identifier = ''b'', mutators = Map.empty, listeners = Map.empty,
      globallisteners = GDict Map.empty, stop_scopes = {||}, stop_scope_watcher = None\<rparr>"

text \<open>\<^verbatim>\<open>Backend(identifier='b', globallisteners=set())\<close>.\<close>

definition set_backend :: backend where
  "set_backend =
     \<lparr>identifier = ''b'', mutators = Map.empty, listeners = Map.empty,
      globallisteners = GSet {||}, stop_scopes = {||}, stop_scope_watcher = None\<rparr>"

text \<open>The same backend once \<^verbatim>\<open>_watch_stop_scopes\<close> has opened its nursery.\<close>

definition running_backend :: backend where
  "running_backend = set_backend\<lparr>stop_scope_watcher := Some []\<rparr>"

text \<open>Handlers that all return normally and leave the backend as it is.\<close>

definition quiet :: "string handlers" where
  "quiet h kind data s = (None, s)"

text \<open>The handler at reference 3 raises; every other one returns normally.\<close>

definition first_raises :: "string handlers" where
  "first_raises h kind data s =
     (if h = 3 then (Some (UserError ''boom''), s) else (None, s))"

section \<open>Construction and hooks\<close>

lemma Backend_default: "Backend uuid4 (Some ''b'') None = Inr default_backend"
  by (simp add: Backend_def default_backend_def)

lemma Backend_with_set: "Backend uuid4 (Some ''b'') (Some (GSet {||})) = Inr set_backend"
  by (simp add: Backend_def set_backend_def)

lemma Backend_supplied_identifier:
  "\<exists>b. Backend uuid4 (Some i) g = Inr b \<and> identifier b = i"
  by (simp add: Backend_def)

text \<open>
  C8. A backend constructed without an identifier gets a generated one. In the code the
  construction does not get that far: the factory of \<^verbatim>\<open>identifier\<close> is a lambda of one
  parameter, \<^verbatim>\<open>attr.Factory\<close> calls it with none, and the call raises \<^verbatim>\<open>TypeError\<close>;
  no instance is made, whatever \<^verbatim>\<open>uuid.uuid4()\<close> would have returned.
\<close>

theorem Backend_without_identifier_raises: "Backend uuid4 None g = Inl TypeError"
  by (simp add: Backend_def attr_Factory_def identifier_factory_def)

text \<open>
  C9. The default \<^verbatim>\<open>pre_bot_register\<close> hook returns false for every backend and every
  bot: by default a backend does not veto its registration.
\<close>

theorem pre_bot_register_default_false: "pre_bot_register self bot_arg = False"
  by (simp add: pre_bot_register_def)

section \<open>Stop scopes\<close>

lemma new_stop_scope_not_running:
  assumes "stop_scope_watcher b = None"
  shows "fst (new_stop_scope b h) = Inl RuntimeError"
    and "stop_scopes (fst (snd (new_stop_scope b h))) = finsert (length h) (stop_scopes b)"
  using assms by (simp_all add: new_stop_scope_def CancelScope_def)

text \<open>
  C3. Called while no watcher is set, \<^verbatim>\<open>new_stop_scope\<close> is to fail and leave
  \<^verbatim>\<open>stop_scopes\<close> as it was. The code raises \<^verbatim>\<open>RuntimeError\<close>, but only after it has
  added the new scope: on a backend that was never started, with no scope made so far,
  the call fails and \<^verbatim>\<open>stop_scopes\<close> goes from empty to holding the scope at address 0.
\<close>

theorem new_stop_scope_not_running_keeps_scope:
  "stop_scopes default_backend = {||} \<and>
   new_stop_scope default_backend [] =
     (Inl RuntimeError, default_backend\<lparr>stop_scopes := {|0|}\<rparr>, [False])"
  by (simp add: new_stop_scope_def CancelScope_def default_backend_def)

text \<open>
  C7. Called while the watcher is set, \<^verbatim>\<open>new_stop_scope\<close> succeeds. The scope it returns
  is a new object (its address is the first one past the objects made so far, and it is
  not cancelled), it is in \<^verbatim>\<open>stop_scopes\<close> when the call returns, it was not there
  before (every scope held before is an object made before), and its \<^verbatim>\<open>watch_scope\<close> task
  has been handed to the nursery.
\<close>

theorem new_stop_scope_running:
  assumes "stop_scope_watcher b = Some n"
    and "\<forall>s. s |\<in>| stop_scopes b \<longrightarrow> s < length h"
  shows "fst (new_stop_scope b h) = Inr (length h) \<and>
         length h |\<in>| stop_scopes (fst (snd (new_stop_scope b h))) \<and>
         length h |\<notin>| stop_scopes b \<and>
         stop_scopes (fst (snd (new_stop_scope b h))) = finsert (length h) (stop_scopes b) \<and>
         snd (snd (new_stop_scope b h)) = h @ [False] \<and>
         stop_scope_watcher (fst (snd (new_stop_scope b h))) = Some (n @ [WatchScope (length h)])"
proof -
  have "length h |\<notin>| stop_scopes b"
    using assms(2) by blast
  then show ?thesis
    using assms(1) by (simp add: new_stop_scope_def CancelScope_def start_soon_def)
qed

theorem new_stop_scope_running_witness:
  "new_stop_scope running_backend [] =
     (Inr 0, running_backend\<lparr>stop_scopes := {|0|}, stop_scope_watcher := Some [WatchScope 0]\<rparr>,
      [False])"
proof -
  have w: "stop_scope_watcher running_backend = Some []"
    by (simp add: running_backend_def)
  have inv: "\<forall>s. s |\<in>| stop_scopes running_backend \<longrightarrow> s < length ([] :: heap)"
    by (simp add: running_backend_def set_backend_def)
  have "fst (new_stop_scope running_backend []) = Inr 0"
    using new_stop_scope_running [OF w inv] by simp
  then show ?thesis
    by (simp add: new_stop_scope_def CancelScope_def start_soon_def running_backend_def
        set_backend_def)
qed

section \<open>The dispatch loop\<close>

text \<open>The calls made are an initial segment of the order the loop iterates in.\<close>

lemma run_listeners_calls_prefix:
  "prefix (fst (run_listeners hs ls kind data b)) (map (call_of kind data) ls)"
proof (induction ls arbitrary: b)
  case Nil
  show ?case by simp
next
  case (Cons l ls)
  obtain r b1 where l: "hs l kind data b = (r, b1)" by (cases "hs l kind data b")
  show ?case
  proof (cases r)
    case (Some e)
    with l show ?thesis by (simp add: call_of_def)
  next
    case None
    with l Cons.IH [of b1] show ?thesis
      by (cases "run_listeners hs ls kind data b1") (simp add: call_of_def)
  qed
qed

text \<open>Handlers that return normally are passed one after the other.\<close>

lemma run_listeners_append:
  assumes "\<forall>x\<in>set pre. \<forall>s. fst (hs x kind data s) = None"
  shows "\<exists>s. run_listeners hs (pre @ rest) kind data b =
           (case run_listeners hs rest kind data s of
              (cs, r, b') \<Rightarrow> (map (call_of kind data) pre @ cs, r, b'))"
  using assms
proof (induction pre arbitrary: b)
  case Nil
  show ?case by (auto split: prod.splits)
next
  case (Cons x pre)
  obtain b1 where x: "hs x kind data b = (None, b1)"
    using Cons.prems by (metis list.set_intros(1) prod.collapse)
  from Cons.IH [of b1] Cons.prems obtain s where
    "run_listeners hs (pre @ rest) kind data b1 =
       (case run_listeners hs rest kind data s of
          (cs, r, b') \<Rightarrow> (map (call_of kind data) pre @ cs, r, b'))"
    by auto
  with x show ?case
    by (auto simp: call_of_def split: prod.splits intro!: exI [of _ s])
qed

lemma run_listeners_no_raise:
  assumes "\<forall>x\<in>set ls. \<forall>s. fst (hs x kind data s) = None"
  shows "fst (run_listeners hs ls kind data b) = map (call_of kind data) ls"
    and "fst (snd (run_listeners hs ls kind data b)) = None"
  using run_listeners_append [of ls hs kind data "[]" b] assms by (auto split: prod.splits)

lemma run_listeners_raise:
  assumes "\<forall>x\<in>set pre. \<forall>s. fst (hs x kind data s) = None"
    and "\<forall>s. fst (hs h kind data s) = Some e"
  shows "fst (run_listeners hs (pre @ h # post) kind data b) = map (call_of kind data) (pre @ [h])"
    and "fst (snd (run_listeners hs (pre @ h # post) kind data b)) = Some e"
proof -
  obtain s where s: "run_listeners hs (pre @ h # post) kind data b =
           (case run_listeners hs (h # post) kind data s of
              (cs, r, b') \<Rightarrow> (map (call_of kind data) pre @ cs, r, b'))"
    using run_listeners_append [of pre hs kind data "h # post" b] assms(1) by blast
  obtain s' where "hs h kind data s = (Some e, s')"
    using assms(2) by (metis prod.collapse)
  with s show "fst (run_listeners hs (pre @ h # post) kind data b) = map (call_of kind data) (pre @ [h])"
    and "fst (snd (run_listeners hs (pre @ h # post) kind data b)) = Some e"
    by (auto simp: call_of_def)
qed

lemma run_listeners_reaches:
  assumes "\<forall>x\<in>set pre. \<forall>s. fst (hs x kind data s) = None"
  shows "prefix (map (call_of kind data) (pre @ [h]))
           (fst (run_listeners hs (pre @ h # post) kind data b))"
proof -
  obtain s where s: "run_listeners hs (pre @ h # post) kind data b =
           (case run_listeners hs (h # post) kind data s of
              (cs, r, b') \<Rightarrow> (map (call_of kind data) pre @ cs, r, b'))"
    using run_listeners_append [of pre hs kind data "h # post" b] assms by blast
  show ?thesis unfolding s
    by (auto simp: call_of_def split: prod.splits option.splits)
qed

text \<open>The loop changes the registry only through the handlers it calls.\<close>

lemma run_listeners_registry:
  assumes "\<forall>c\<in>set (fst (run_listeners hs ls kind data b)). \<forall>s.
             listeners (snd (hs (fst c) kind data s)) = listeners s \<and>
             globallisteners (snd (hs (fst c) kind data s)) = globallisteners s"
  shows "listeners (snd (snd (run_listeners hs ls kind data b))) = listeners b \<and>
         globallisteners (snd (snd (run_listeners hs ls kind data b))) = globallisteners b"
  using assms
proof (induction ls arbitrary: b)
  case Nil
  show ?case by simp
next
  case (Cons l ls)
  obtain r b1 where l: "hs l kind data b = (r, b1)" by (cases "hs l kind data b")
  have mem: "(l, kind, data) \<in> set (fst (run_listeners hs (l # ls) kind data b))"
    using l by (cases r) (auto split: prod.splits)
  with Cons.prems have keep: "listeners b1 = listeners b \<and> globallisteners b1 = globallisteners b"
    using l by (metis fst_conv snd_conv)
  show ?case
  proof (cases r)
    case (Some e)
    with l keep show ?thesis by simp
  next
    case None
    have "\<forall>c\<in>set (fst (run_listeners hs ls kind data b1)). \<forall>s.
             listeners (snd (hs (fst c) kind data s)) = listeners s \<and>
             globallisteners (snd (hs (fst c) kind data s)) = globallisteners s"
      using Cons.prems l None by (auto split: prod.splits)
    from Cons.IH [OF this] l None keep show ?thesis
      by (auto split: prod.splits)
  qed
qed

subsection \<open>Counting calls\<close>

lemma count_list_distinct_le: "distinct xs \<Longrightarrow> count_list xs x \<le> 1"
  by (induction xs) auto

lemma count_list_member_pos: "x \<in> set xs \<Longrightarrow> 0 < count_list xs x"
  by (induction xs) auto

lemma invoked_prefix_le:
  assumes "prefix cs (map (call_of kind data) ls)" and "distinct ls"
  shows "invoked cs h \<le> 1"
proof -
  from assms(1) obtain n where cs: "cs = map (call_of kind data) (take n ls)"
    by (metis prefix_def append_eq_conv_conj take_map)
  have "map fst cs = take n ls"
    unfolding cs by (simp add: call_of_def comp_def)
  moreover have "distinct (take n ls)" using assms(2) by simp
  ultimately show ?thesis
    unfolding invoked_def using count_list_distinct_le [of "take n ls" h] by simp
qed

lemma invoked_reached:
  assumes "prefix (map (call_of kind data) (pre @ [h])) cs"
    and "prefix cs (map (call_of kind data) ls)" and "distinct ls"
  shows "invoked cs h = 1 \<and> count_list cs (h, kind, data) = 1"
proof -
  have le: "invoked cs h \<le> 1" using invoked_prefix_le [OF assms(2,3)] .
  have mem: "(h, kind, data) \<in> set cs"
    using assms(1) by (auto simp: prefix_def call_of_def)
  then have "h \<in> set (map fst cs)" by force
  then have "0 < invoked cs h" unfolding invoked_def by (rule count_list_member_pos)
  with le have one: "invoked cs h = 1" by simp
  have "count_list cs (h, kind, data) \<le> count_list (map fst cs) h"
    by (induction cs) auto
  moreover have "0 < count_list cs (h, kind, data)"
    using mem by (rule count_list_member_pos)
  ultimately show ?thesis using one unfolding invoked_def by simp
qed

lemma split_at_member:
  assumes "h \<in> set ls"
  shows "ls = takeWhile (\<lambda>x. x \<noteq> h) ls @ h # tl (dropWhile (\<lambda>x. x \<noteq> h) ls)"
proof -
  have "dropWhile (\<lambda>x. x \<noteq> h) ls \<noteq> []" using assms by (simp add: dropWhile_eq_Nil_conv)
  moreover have "hd (dropWhile (\<lambda>x. x \<noteq> h) ls) = h"
    using assms hd_dropWhile [of "\<lambda>x. x \<noteq> h" ls] calculation by blast
  ultimately have "dropWhile (\<lambda>x. x \<noteq> h) ls = h # tl (dropWhile (\<lambda>x. x \<noteq> h) ls)"
    by (metis list.collapse)
  then show ?thesis by (metis takeWhile_dropWhile_id)
qed

subsection \<open>Iteration orders\<close>

lemma iterates_member: "iterates it \<Longrightarrow> x \<in> set (it S) \<longleftrightarrow> x |\<in>| S"
  by (metis iterates_def fset_of_list_elem)

lemma iterates_distinct: "iterates it \<Longrightarrow> distinct (it S)"
  by (simp add: iterates_def)

text \<open>Ascending order of the references is one of the orders a runtime may take.\<close>

lemma iterates_sorted: "iterates sorted_list_of_fset"
  by (simp add: iterates_def) (simp add: sorted_list_of_fset.rep_eq)

subsection \<open>\<^verbatim>\<open>receive_message\<close>\<close>

lemma receive_message_set:
  "globallisteners b = GSet g \<Longrightarrow>
     receive_message hs it b kind data =
       run_listeners hs (it (listeners_get b kind |\<union>| g)) kind data b"
  by (simp add: receive_message_def)

text \<open>
  With the default \<^verbatim>\<open>globallisteners\<close>, a dict, \<^verbatim>\<open>receive_message\<close> raises before it
  calls any handler, and \<^verbatim>\<open>listen_all\<close> raises without registering.
\<close>

lemma receive_message_dict:
  "globallisteners b = GDict d \<Longrightarrow> receive_message hs it b kind data = ([], Some TypeError, b)"
  by (simp add: receive_message_def)

lemma listen_all_dict:
  "globallisteners b = GDict d \<Longrightarrow> listen_all func b = (Inl AttributeError, b)"
  by (simp add: listen_all_def)

lemma listen_all_set:
  "globallisteners b = GSet g \<Longrightarrow>
     listen_all func b = (Inr func, b\<lparr>globallisteners := GSet (finsert func g)\<rparr>)"
  by (simp add: listen_all_def)

lemma dispatch_at_most_once:
  assumes "globallisteners b = GSet g" and "iterates it"
  shows "invoked (fst (receive_message hs it b kind data)) h \<le> 1"
  using invoked_prefix_le [OF run_listeners_calls_prefix iterates_distinct [OF assms(2)]]
  by (simp add: receive_message_set [OF assms(1)])

lemma dispatch_reaches:
  assumes "globallisteners b = GSet g" and "iterates it"
    and "h |\<in>| listeners_get b kind |\<union>| g"
    and "\<forall>x\<in>set (takeWhile (\<lambda>x. x \<noteq> h) (it (listeners_get b kind |\<union>| g))). \<forall>s.
           fst (hs x kind data s) = None"
  shows "invoked (fst (receive_message hs it b kind data)) h = 1 \<and>
         count_list (fst (receive_message hs it b kind data)) (h, kind, data) = 1"
proof -
  let ?ls = "it (listeners_get b kind |\<union>| g)"
  let ?pre = "takeWhile (\<lambda>x. x \<noteq> h) ?ls"
  let ?post = "tl (dropWhile (\<lambda>x. x \<noteq> h) ?ls)"
  have "h \<in> set ?ls" using assms(2,3) by (simp add: iterates_member)
  then have ls: "?ls = ?pre @ h # ?post" by (rule split_at_member)
  have "prefix (map (call_of kind data) (?pre @ [h]))
          (fst (run_listeners hs (?pre @ h # ?post) kind data b))"
    using run_listeners_reaches [of ?pre hs kind data h ?post b] assms(4) by blast
  then have "prefix (map (call_of kind data) (?pre @ [h])) (fst (run_listeners hs ?ls kind data b))"
    using ls by simp
  from invoked_reached [OF this run_listeners_calls_prefix iterates_distinct [OF assms(2)]]
  show ?thesis by (simp add: receive_message_set [OF assms(1)])
qed

lemma listen_twice: "snd (listen name func (snd (listen name func b))) = snd (listen name func b)"
  by (simp add: listen_def listeners_get_def)

lemma listen_member: "func |\<in>| listeners_get (snd (listen name func b)) name"
  by (simp add: listen_def listeners_get_def)

lemma listen_globallisteners: "globallisteners (snd (listen name func b)) = globallisteners b"
  by (simp add: listen_def)

section \<open>Properties of dispatch\<close>

text \<open>
  C1. The claim: a dispatch invokes the handlers in the order in which they were
  registered. The registry keeps the handlers of a kind in a set, and the loop runs over
  the set \<^verbatim>\<open>listeners.get(kind, set()) | globallisteners\<close>; what holds, on a backend
  whose \<^verbatim>\<open>globallisteners\<close> is a set, is that the calls follow the order in which the
  runtime iterates that set: they are an initial segment of it, and all of it when no
  handler raises.
\<close>

theorem dispatch_follows_iteration_order:
  assumes "globallisteners b = GSet g"
  shows "prefix (fst (receive_message hs it b kind data))
           (map (call_of kind data) (it (listeners_get b kind |\<union>| g))) \<and>
         ((\<forall>x\<in>set (it (listeners_get b kind |\<union>| g)). \<forall>s. fst (hs x kind data s) = None) \<longrightarrow>
            fst (receive_message hs it b kind data) =
              map (call_of kind data) (it (listeners_get b kind |\<union>| g)))"
  using run_listeners_calls_prefix [of hs "it (listeners_get b kind |\<union>| g)" kind data b]
    run_listeners_no_raise(1) [of "it (listeners_get b kind |\<union>| g)" hs kind data b]
  by (simp add: receive_message_set [OF assms])

theorem dispatch_follows_iteration_order_witness:
  "fst (receive_message quiet sorted_list_of_fset
          (snd (listen ''k'' 5 (snd (listen ''k'' 2 set_backend)))) ''k'' ''hi'') =
     [(2, ''k'', ''hi''), (5, ''k'', ''hi'')]"
proof -
  let ?b = "snd (listen ''k'' 5 (snd (listen ''k'' 2 set_backend)))"
  have g: "globallisteners ?b = GSet {||}"
    by (simp add: listen_def set_backend_def)
  have ord: "sorted_list_of_fset (listeners_get ?b ''k'' |\<union>| {||}) = [2, 5]"
    by (simp add: listen_def listeners_get_def set_backend_def sorted_list_of_fset.rep_eq)
  have ok: "\<forall>x\<in>set [2, 5 :: nat]. \<forall>s. fst (quiet x ''k'' ''hi'' s) = None"
    by (simp add: quiet_def)
  show ?thesis
    using dispatch_follows_iteration_order
      [where b = ?b and g = "{||}" and it = sorted_list_of_fset and kind = "''k''"
         and hs = quiet and data = "''hi''"]
      g ok
    unfolding ord by (simp add: call_of_def)
qed

text \<open>
  The claim fails: handler 5 is registered first and handler 2 second, both under
  \<^verbatim>\<open>'k'\<close>, no handler raises, the runtime iterates the set in ascending order of the
  references (one of the orders it may take), and the dispatch calls handler 2 before
  handler 5.
\<close>

theorem dispatch_order_counterexample:
  "iterates sorted_list_of_fset \<and>
   fst (receive_message quiet sorted_list_of_fset
          (snd (listen ''k'' 2 (snd (listen ''k'' 5 set_backend)))) ''k'' ''hi'') =
     [(2, ''k'', ''hi''), (5, ''k'', ''hi'')]"
  by (simp add: iterates_sorted)
    (simp add: receive_message_def listen_def listeners_get_def set_backend_def
      sorted_list_of_fset.rep_eq quiet_def)

text \<open>
  C2. The claim: when an earlier handler raises, the later ones still run and the
  dispatch does not raise. The loop has no exception handling; what holds, on a backend
  whose \<^verbatim>\<open>globallisteners\<close> is a set, is that the first handler that raises ends the
  dispatch: the calls made are those up to and including it, its exception is what
  \<^verbatim>\<open>receive_message\<close> raises, and no handler after it in the iteration order is called.
\<close>

theorem handler_exception_aborts_dispatch:
  assumes "globallisteners b = GSet g" and "iterates it"
    and "it (listeners_get b kind |\<union>| g) = pre @ h # post"
    and "\<forall>x\<in>set pre. \<forall>s. fst (hs x kind data s) = None"
    and "\<forall>s. fst (hs h kind data s) = Some e"
  shows "fst (receive_message hs it b kind data) = map (call_of kind data) (pre @ [h]) \<and>
         fst (snd (receive_message hs it b kind data)) = Some e \<and>
         (\<forall>x\<in>set post. invoked (fst (receive_message hs it b kind data)) x = 0)"
proof -
  have rm: "receive_message hs it b kind data = run_listeners hs (pre @ h # post) kind data b"
    using assms(1,3) by (simp add: receive_message_set)
  have calls: "fst (run_listeners hs (pre @ h # post) kind data b) = map (call_of kind data) (pre @ [h])"
    and err: "fst (snd (run_listeners hs (pre @ h # post) kind data b)) = Some e"
    using run_listeners_raise [of pre hs kind data h e post b] assms(4,5) by blast+
  have "distinct (pre @ h # post)"
    using iterates_distinct [OF assms(2), of "listeners_get b kind |\<union>| g"] assms(3) by simp
  then have "\<forall>x\<in>set post. x \<notin> set pre \<and> x \<noteq> h \<and> h \<noteq> x" by auto
  then have "\<forall>x\<in>set post. invoked (map (call_of kind data) (pre @ [h])) x = 0"
    unfolding invoked_def by (simp add: call_of_def comp_def)
  with rm calls err show ?thesis by simp
qed

theorem handler_exception_aborts_dispatch_witness:
  "fst (receive_message first_raises sorted_list_of_fset
          (snd (listen ''k'' 7 (snd (listen ''k'' 3 (snd (listen ''k'' 2 set_backend))))))
          ''k'' ''hi'') =
     [(2, ''k'', ''hi''), (3, ''k'', ''hi'')] \<and>
   fst (snd (receive_message first_raises sorted_list_of_fset
          (snd (listen ''k'' 7 (snd (listen ''k'' 3 (snd (listen ''k'' 2 set_backend))))))
          ''k'' ''hi'')) =
     Some (UserError ''boom'') \<and>
   invoked (fst (receive_message first_raises sorted_list_of_fset
          (snd (listen ''k'' 7 (snd (listen ''k'' 3 (snd (listen ''k'' 2 set_backend))))))
          ''k'' ''hi'')) 7 = 0"
proof -
  let ?b = "snd (listen ''k'' 7 (snd (listen ''k'' 3 (snd (listen ''k'' 2 set_backend)))))"
  have g: "globallisteners ?b = GSet {||}"
    by (simp add: listen_def set_backend_def)
  have ord: "sorted_list_of_fset (listeners_get ?b ''k'' |\<union>| {||}) = [2] @ 3 # [7]"
    by (simp add: listen_def listeners_get_def set_backend_def sorted_list_of_fset.rep_eq)
  have pre: "\<forall>x\<in>set [2 :: nat]. \<forall>s. fst (first_raises x ''k'' ''hi'' s) = None"
    by (simp add: first_raises_def)
  have h: "\<forall>s. fst (first_raises 3 ''k'' ''hi'' s) = Some (UserError ''boom'')"
    by (simp add: first_raises_def)
  show ?thesis
    using handler_exception_aborts_dispatch
      [where b = ?b and g = "{||}" and it = sorted_list_of_fset and kind = "''k''"
         and pre = "[2]" and h = 3 and post = "[7]" and hs = first_raises and data = "''hi''"
         and e = "UserError ''boom''"]
      g iterates_sorted ord pre h
    by (simp add: invoked_def call_of_def)
qed

text \<open>
  The claim fails: handlers 3 and 7 are registered under \<^verbatim>\<open>'k'\<close>, handler 3 raises and
  is iterated first; the dispatch calls handler 3 only, and raises its exception.
\<close>

theorem handler_exception_counterexample:
  "receive_message first_raises sorted_list_of_fset
     (snd (listen ''k'' 7 (snd (listen ''k'' 3 set_backend)))) ''k'' ''hi'' =
     ([(3, ''k'', ''hi'')], Some (UserError ''boom''),
      snd (listen ''k'' 7 (snd (listen ''k'' 3 set_backend))))"
  by (simp add: receive_message_def listen_def listeners_get_def set_backend_def
      sorted_list_of_fset.rep_eq first_raises_def)

text \<open>
  C5. The claim: a handler registered under a kind and as a global handler is invoked
  exactly once by a dispatch of that kind, and a global handler exactly once by every
  dispatch. What holds for a handler in the global set, whether or not it is also
  registered under the kind: a dispatch calls it at most once, never twice; and it calls
  it exactly once, with the kind and the data, when no handler iterated before it raises.
\<close>

theorem global_handler_invoked_at_most_once:
  assumes "globallisteners b = GSet g" and "iterates it" and "h |\<in>| g"
  shows "invoked (fst (receive_message hs it b kind data)) h \<le> 1 \<and>
         ((\<forall>x\<in>set (takeWhile (\<lambda>x. x \<noteq> h) (it (listeners_get b kind |\<union>| g))). \<forall>s.
              fst (hs x kind data s) = None) \<longrightarrow>
            invoked (fst (receive_message hs it b kind data)) h = 1 \<and>
            count_list (fst (receive_message hs it b kind data)) (h, kind, data) = 1)"
  using dispatch_at_most_once [OF assms(1,2), of hs kind data h]
    dispatch_reaches [OF assms(1,2), of h kind hs data] assms(3)
  by blast

theorem global_handler_invoked_at_most_once_witness:
  "invoked (fst (receive_message quiet sorted_list_of_fset
      (snd (listen_all 5 (snd (listen ''k'' 5 (snd (listen ''k'' 2 set_backend))))))
      ''k'' ''hi'')) 5 = 1 \<and>
   count_list (fst (receive_message quiet sorted_list_of_fset
      (snd (listen_all 5 (snd (listen ''k'' 5 (snd (listen ''k'' 2 set_backend))))))
      ''k'' ''hi'')) (5, ''k'', ''hi'') = 1"
proof -
  let ?b = "snd (listen_all 5 (snd (listen ''k'' 5 (snd (listen ''k'' 2 set_backend)))))"
  have g: "globallisteners ?b = GSet {|5|}"
    by (simp add: listen_all_def listen_def set_backend_def)
  have mem: "5 |\<in>| {|5 :: nat|}" by simp
  have ord: "sorted_list_of_fset (listeners_get ?b ''k'' |\<union>| {|5|}) = [2, 5]"
    by (simp add: listen_all_def listen_def listeners_get_def set_backend_def
        sorted_list_of_fset.rep_eq)
  have ok: "\<forall>x\<in>set (takeWhile (\<lambda>x. x \<noteq> 5) [2, 5 :: nat]). \<forall>s.
      fst (quiet x ''k'' ''hi'' s) = None"
    by (simp add: quiet_def)
  show ?thesis
    using global_handler_invoked_at_most_once
      [where b = ?b and g = "{|5|}" and it = sorted_list_of_fset and h = 5 and hs = quiet
         and kind = "''k''" and data = "''hi''"]
      g iterates_sorted mem ok
    unfolding ord by blast
qed

text \<open>
  The claim fails: handler 7 is registered under \<^verbatim>\<open>'k'\<close> and as a global handler,
  handler 3 is registered under \<^verbatim>\<open>'k'\<close>, raises and is iterated first; the dispatch of
  \<^verbatim>\<open>'k'\<close> does not call handler 7 at all.
\<close>

theorem global_handler_counterexample:
  "globallisteners (snd (listen_all 7 (snd (listen ''k'' 7 (snd (listen ''k'' 3 set_backend)))))) =
     GSet {|7|} \<and>
   listeners_get (snd (listen_all 7 (snd (listen ''k'' 7 (snd (listen ''k'' 3 set_backend))))))
     ''k'' = {|7, 3|} \<and>
   invoked (fst (receive_message first_raises sorted_list_of_fset
      (snd (listen_all 7 (snd (listen ''k'' 7 (snd (listen ''k'' 3 set_backend))))))
      ''k'' ''hi'')) 7 = 0"
  by (simp add: receive_message_def listen_all_def listen_def listeners_get_def set_backend_def
      sorted_list_of_fset.rep_eq first_raises_def invoked_def)

text \<open>
  C6. The claim: registering a handler twice under a kind is the same as registering it
  once, and a later dispatch of that kind invokes it exactly once with the kind and the
  data. The first half holds as it stands: the second registration returns the handler
  and leaves the backend as the first one left it. For the dispatch, on a backend whose
  \<^verbatim>\<open>globallisteners\<close> is a set: the handler is called at most once, and exactly once with
  the kind and the data when no handler iterated before it raises.
\<close>

theorem listen_again_is_idempotent:
  "snd (listen k h (snd (listen k h b))) = snd (listen k h b) \<and>
   fst (listen k h (snd (listen k h b))) = h \<and>
   (globallisteners b = GSet g \<and> iterates it \<longrightarrow>
      invoked (fst (receive_message hs it (snd (listen k h (snd (listen k h b)))) k data)) h \<le> 1 \<and>
      ((\<forall>x\<in>set (takeWhile (\<lambda>x. x \<noteq> h)
              (it (listeners_get (snd (listen k h b)) k |\<union>| g))). \<forall>s.
           fst (hs x k data s) = None) \<longrightarrow>
         invoked (fst (receive_message hs it (snd (listen k h (snd (listen k h b)))) k data)) h = 1 \<and>
         count_list (fst (receive_message hs it (snd (listen k h (snd (listen k h b)))) k data))
           (h, k, data) = 1))"
proof -
  have ret: "fst (listen k h (snd (listen k h b))) = h"
    by (simp add: listen_def)
  have "invoked (fst (receive_message hs it (snd (listen k h b)) k data)) h \<le> 1"
    if "globallisteners b = GSet g" "iterates it"
    using dispatch_at_most_once [of "snd (listen k h b)" g it hs k data h] that
    by (simp add: listen_globallisteners)
  moreover have "invoked (fst (receive_message hs it (snd (listen k h b)) k data)) h = 1 \<and>
      count_list (fst (receive_message hs it (snd (listen k h b)) k data)) (h, k, data) = 1"
    if "globallisteners b = GSet g" "iterates it"
      "\<forall>x\<in>set (takeWhile (\<lambda>x. x \<noteq> h) (it (listeners_get (snd (listen k h b)) k |\<union>| g))). \<forall>s.
         fst (hs x k data s) = None"
    using dispatch_reaches [of "snd (listen k h b)" g it h k hs data] that listen_member [of h k b]
    by (simp add: listen_globallisteners)
  ultimately show ?thesis
    unfolding listen_twice using ret by blast
qed

theorem listen_again_is_idempotent_witness:
  "snd (listen ''k'' 5 (snd (listen ''k'' 5 (snd (listen ''k'' 2 set_backend))))) =
     snd (listen ''k'' 5 (snd (listen ''k'' 2 set_backend))) \<and>
   invoked (fst (receive_message quiet sorted_list_of_fset
      (snd (listen ''k'' 5 (snd (listen ''k'' 5 (snd (listen ''k'' 2 set_backend))))))
      ''k'' ''hi'')) 5 = 1 \<and>
   count_list (fst (receive_message quiet sorted_list_of_fset
      (snd (listen ''k'' 5 (snd (listen ''k'' 5 (snd (listen ''k'' 2 set_backend))))))
      ''k'' ''hi'')) (5, ''k'', ''hi'') = 1"
proof -
  let ?b = "snd (listen ''k'' 2 set_backend)"
  have g: "globallisteners ?b = GSet {||}"
    by (simp add: listen_def set_backend_def)
  have ord: "sorted_list_of_fset (listeners_get (snd (listen ''k'' 5 ?b)) ''k'' |\<union>| {||}) = [2, 5]"
    by (simp add: listen_def listeners_get_def set_backend_def sorted_list_of_fset.rep_eq)
  have ok: "\<forall>x\<in>set (takeWhile (\<lambda>x. x \<noteq> 5) [2, 5 :: nat]). \<forall>s.
      fst (quiet x ''k'' ''hi'' s) = None"
    by (simp add: quiet_def)
  show ?thesis
    using listen_again_is_idempotent
      [where b = ?b and g = "{||}" and it = sorted_list_of_fset and h = 5 and hs = quiet
         and k = "''k''" and data = "''hi''"]
      g iterates_sorted ok
    unfolding ord by blast
qed

text \<open>
  The claim fails: handler 3 is registered under \<^verbatim>\<open>'k'\<close>, then handler 7 twice;
  handler 3 raises and is iterated first, and the dispatch of \<^verbatim>\<open>'k'\<close> does not call
  handler 7.
\<close>

theorem listen_again_counterexample:
  "invoked (fst (receive_message first_raises sorted_list_of_fset
      (snd (listen ''k'' 7 (snd (listen ''k'' 7 (snd (listen ''k'' 3 set_backend))))))
      ''k'' ''hi'')) 7 = 0"
  by (simp add: receive_message_def listen_def listeners_get_def set_backend_def
      sorted_list_of_fset.rep_eq first_raises_def invoked_def)

text \<open>
  C10. \<^verbatim>\<open>receive_message\<close> leaves the registries as they were: if the handlers it calls
  change neither \<^verbatim>\<open>listeners\<close> nor \<^verbatim>\<open>globallisteners\<close>, both are the same after the
  dispatch as before it, whether the dispatch returns or raises; in particular a kind
  that had no entry in \<^verbatim>\<open>listeners\<close> has none afterwards.
\<close>

theorem receive_message_keeps_registry:
  assumes "\<forall>c\<in>set (fst (receive_message hs it b kind data)). \<forall>s.
             listeners (snd (hs (fst c) kind data s)) = listeners s \<and>
             globallisteners (snd (hs (fst c) kind data s)) = globallisteners s"
  shows "listeners (snd (snd (receive_message hs it b kind data))) = listeners b \<and>
         globallisteners (snd (snd (receive_message hs it b kind data))) = globallisteners b \<and>
         (listeners b kind = None \<longrightarrow>
            listeners (snd (snd (receive_message hs it b kind data))) kind = None)"
proof (cases "globallisteners b")
  case (GDict d)
  then show ?thesis by (simp add: receive_message_def)
next
  case (GSet g)
  have rm: "receive_message hs it b kind data =
      run_listeners hs (it (listeners_get b kind |\<union>| g)) kind data b"
    using GSet by (rule receive_message_set)
  from assms run_listeners_registry [of hs "it (listeners_get b kind |\<union>| g)" kind data b]
  show ?thesis unfolding rm by simp
qed

theorem receive_message_keeps_registry_witness:
  "fst (receive_message quiet sorted_list_of_fset
      (snd (listen_all 5 (snd (listen ''k'' 2 set_backend)))) ''z'' ''hi'') =
     [(5, ''z'', ''hi'')] \<and>
   listeners (snd (snd (receive_message quiet sorted_list_of_fset
      (snd (listen_all 5 (snd (listen ''k'' 2 set_backend)))) ''z'' ''hi''))) =
     listeners (snd (listen_all 5 (snd (listen ''k'' 2 set_backend)))) \<and>
   globallisteners (snd (snd (receive_message quiet sorted_list_of_fset
      (snd (listen_all 5 (snd (listen ''k'' 2 set_backend)))) ''z'' ''hi''))) = GSet {|5|} \<and>
   listeners (snd (snd (receive_message quiet sorted_list_of_fset
      (snd (listen_all 5 (snd (listen ''k'' 2 set_backend)))) ''z'' ''hi''))) ''z'' = None"
proof -
  let ?b = "snd (listen_all 5 (snd (listen ''k'' 2 set_backend)))"
  have calls: "fst (receive_message quiet sorted_list_of_fset ?b ''z'' ''hi'') = [(5, ''z'', ''hi'')]"
    by (simp add: receive_message_def listen_all_def listen_def listeners_get_def
        set_backend_def sorted_list_of_fset.rep_eq quiet_def)
  have keep: "\<forall>c\<in>set (fst (receive_message quiet sorted_list_of_fset ?b ''z'' ''hi'')). \<forall>s.
      listeners (snd (quiet (fst c) ''z'' ''hi'' s)) = listeners s \<and>
      globallisteners (snd (quiet (fst c) ''z'' ''hi'' s)) = globallisteners s"
    by (simp add: quiet_def)
  have g: "globallisteners ?b = GSet {|5|}"
    by (simp add: listen_all_def listen_def set_backend_def)
  have none: "listeners ?b ''z'' = None"
    by (simp add: listen_all_def listen_def set_backend_def)
  show ?thesis
    using receive_message_keeps_registry [OF keep] calls g none by simp
qed

end
